theory Spec2Isabelle
  imports Complex_Main
begin

section \<open>Python values used by \<open>nltk/align/ibm_model.py\<close>\<close>

text \<open>
  The only exception the sampler itself can raise is an out-of-range subscript.
  Positions produced by \<open>range\<close> are natural numbers; the entries stored in the
  alignment and fertility tuples are Python integers (\<open>int\<close>). Probabilities are
  Python floats, modelled as real numbers.
\<close>

datatype error = IndexError

text \<open>
  Subscripting a sequence of length \<open>n\<close> with a stored integer \<open>k\<close>: a negative
  subscript counts from the end, anything outside \<open>-n .. n-1\<close> raises.
\<close>

definition subscript :: "nat \<Rightarrow> int \<Rightarrow> error + nat" where
  "subscript n k =
     (if 0 \<le> k \<and> k < int n then Inr (nat k)
      else if - int n \<le> k \<and> k < 0 then Inr (nat (int n + k))
      else Inl IndexError)"

section \<open>AlignmentInfo\<close>

record AlignmentInfo =
  alignment :: "int list"
  fertility_of_i :: "int list"
  src_sentence :: "string option list"
  trg_sentence :: "string list"

text \<open>\<open>__eq__\<close> and \<open>__hash__\<close>; the hash of a tuple is Python's, taken as a parameter.\<close>

definition AlignmentInfo_eq :: "AlignmentInfo \<Rightarrow> AlignmentInfo \<Rightarrow> bool" where
  "AlignmentInfo_eq self other \<longleftrightarrow> alignment self = alignment other"

definition AlignmentInfo_hash :: "(int list \<Rightarrow> int) \<Rightarrow> AlignmentInfo \<Rightarrow> int" where
  "AlignmentInfo_hash hash self = hash (alignment self)"

text \<open>
  A Python \<open>set\<close> of AlignmentInfo objects: the members in insertion order, no two of
  them equal under \<open>__eq__\<close>. \<open>add\<close> keeps the member already present.
\<close>

type_synonym AlignmentInfo_set = "AlignmentInfo list"

definition set_contains :: "AlignmentInfo_set \<Rightarrow> AlignmentInfo \<Rightarrow> bool" where
  "set_contains S x = list_ex (\<lambda>y. AlignmentInfo_eq y x) S"

definition set_add :: "AlignmentInfo_set \<Rightarrow> AlignmentInfo \<Rightarrow> AlignmentInfo_set" where
  "set_add S x = (if set_contains S x then S else S @ [x])"

definition set_update :: "AlignmentInfo_set \<Rightarrow> AlignmentInfo list \<Rightarrow> AlignmentInfo_set" where
  "set_update S xs = fold (\<lambda>x T. set_add T x) xs S"

section \<open>IBMModel.neighboring\<close>

text \<open>
  The body of the move loop for one \<open>j\<close> and one \<open>i\<close> (lines 219-228): each of the
  three subscripted assignments may raise.
\<close>

definition move_point :: "AlignmentInfo \<Rightarrow> nat \<Rightarrow> nat \<Rightarrow> error + AlignmentInfo" where
  "move_point alignment_info j i =
     (let original_alignment = alignment alignment_info;
          original_fertility = fertility_of_i alignment_info
      in if \<not> j < length original_alignment then Inl IndexError
         else let new_alignment = original_alignment[j := int i]
         in if \<not> i < length original_fertility then Inl IndexError
         else let new_fertility = original_fertility[i := original_fertility ! i + 1]
         in case subscript (length new_fertility) (original_alignment ! j) of
              Inl e \<Rightarrow> Inl e
            | Inr k \<Rightarrow>
                Inr \<lparr>alignment = new_alignment,
                     fertility_of_i = new_fertility[k := new_fertility ! k - 1],
                     src_sentence = src_sentence alignment_info,
                     trg_sentence = trg_sentence alignment_info\<rparr>)"

text \<open>The body of the swap loop for one \<open>j\<close> and one \<open>other_j\<close> (lines 236-243).\<close>

definition swap_points :: "AlignmentInfo \<Rightarrow> nat \<Rightarrow> nat \<Rightarrow> error + AlignmentInfo" where
  "swap_points alignment_info j other_j =
     (let original_alignment = alignment alignment_info;
          original_fertility = fertility_of_i alignment_info
      in if \<not> other_j < length original_alignment \<or> \<not> j < length original_alignment
         then Inl IndexError
         else let new_alignment =
                    (original_alignment[j := original_alignment ! other_j])
                      [other_j := original_alignment ! j]
         in Inr \<lparr>alignment = new_alignment,
                 fertility_of_i = original_fertility,
                 src_sentence = src_sentence alignment_info,
                 trg_sentence = trg_sentence alignment_info\<rparr>)"

text \<open>
  The objects the two loop nests construct, in the order of construction.
  \<open>range(0, l + 1)\<close> with \<open>l = len(src_sentence) - 1\<close> is \<open>[0..<length src_sentence]\<close>,
  \<open>range(1, m + 1)\<close> is \<open>[1..<m + 1]\<close>.
\<close>

definition move_candidates :: "AlignmentInfo \<Rightarrow> nat \<Rightarrow> (error + AlignmentInfo) list" where
  "move_candidates alignment_info j_pegged =
     concat (map (\<lambda>j. if j \<noteq> j_pegged
                       then map (\<lambda>i. move_point alignment_info j i)
                              [0..<length (src_sentence alignment_info)]
                       else [])
               [1..<length (trg_sentence alignment_info) + 1])"

definition swap_candidates :: "AlignmentInfo \<Rightarrow> nat \<Rightarrow> (error + AlignmentInfo) list" where
  "swap_candidates alignment_info j_pegged =
     concat (map (\<lambda>j. if j \<noteq> j_pegged
                       then map (\<lambda>other_j. swap_points alignment_info j other_j)
                              (filter (\<lambda>other_j. other_j \<noteq> j_pegged \<and> other_j \<noteq> j)
                                 [1..<length (trg_sentence alignment_info) + 1])
                       else [])
               [1..<length (trg_sentence alignment_info) + 1])"

text \<open>\<open>neighbors.add\<close> for each constructed object; the first exception ends the call.\<close>

fun add_candidates ::
  "AlignmentInfo_set \<Rightarrow> (error + AlignmentInfo) list \<Rightarrow> error + AlignmentInfo_set" where
  "add_candidates neighbors [] = Inr neighbors"
| "add_candidates neighbors (Inl e # cs) = Inl e"
| "add_candidates neighbors (Inr x # cs) = add_candidates (set_add neighbors x) cs"

definition neighboring :: "AlignmentInfo \<Rightarrow> nat \<Rightarrow> error + AlignmentInfo_set" where
  "neighboring alignment_info j_pegged =
     add_candidates []
       (move_candidates alignment_info j_pegged @ swap_candidates alignment_info j_pegged)"

section \<open>IBMModel.hillclimb\<close>

text \<open>
  The scoring method \<open>probability\<close> belongs to the concrete model; it is a parameter.
  One pass of the \<open>for\<close> loop over the neighbours of the alignment the pass started
  from; \<open>current\<close> is the source's variable \<open>alignment\<close>.
\<close>

definition climb_pass ::
  "(AlignmentInfo \<Rightarrow> real) \<Rightarrow> AlignmentInfo_set \<Rightarrow> AlignmentInfo \<Rightarrow> AlignmentInfo" where
  "climb_pass probability neighbors current =
     fold (\<lambda>neighbor_alignment current.
             if probability neighbor_alignment > probability current
             then neighbor_alignment else current)
          neighbors current"

text \<open>The \<open>while True\<close> loop; \<open>None\<close> stands for a loop that never ends.\<close>

partial_function (option) hillclimb_loop ::
  "(AlignmentInfo \<Rightarrow> real) \<Rightarrow> nat \<Rightarrow> AlignmentInfo \<Rightarrow> (error + AlignmentInfo) option" where
  "hillclimb_loop probability j_pegged old_alignment =
     (case neighboring old_alignment j_pegged of
        Inl e \<Rightarrow> Some (Inl e)
      | Inr neighbors \<Rightarrow>
          (let current = climb_pass probability neighbors old_alignment
           in if AlignmentInfo_eq current old_alignment then Some (Inr current)
              else hillclimb_loop probability j_pegged current))"

text \<open>After the loop the method returns its argument \<open>alignment_info\<close> (line 196).\<close>

definition hillclimb ::
  "(AlignmentInfo \<Rightarrow> real) \<Rightarrow> AlignmentInfo \<Rightarrow> nat \<Rightarrow> (error + AlignmentInfo) option" where
  "hillclimb probability alignment_info j_pegged =
     (case hillclimb_loop probability j_pegged alignment_info of
        None \<Rightarrow> None
      | Some (Inl e) \<Rightarrow> Some (Inl e)
      | Some (Inr current) \<Rightarrow> Some (Inr alignment_info))"

section \<open>The probability tables of IBMModel\<close>

definition MIN_PROB :: real where
  "MIN_PROB = 1 / 10 ^ 12"

text \<open>
  The tables are nested \<open>defaultdict\<close>s (lines 58-88). Reading a key that is absent
  calls the factory, stores what it returns under the key, and yields it: the innermost
  level stores \<open>MIN_PROB\<close>, the outer levels store a fresh empty dictionary.
\<close>

record IBMModel =
  translation_table :: "string \<rightharpoonup> (string option \<rightharpoonup> real)"
  alignment_table :: "int \<rightharpoonup> (int \<rightharpoonup> (int \<rightharpoonup> (int \<rightharpoonup> real)))"
  fertility_table :: "int \<rightharpoonup> (string option \<rightharpoonup> real)"
  p1 :: real

definition floor_getitem :: "('k \<rightharpoonup> real) \<Rightarrow> 'k \<Rightarrow> real \<times> ('k \<rightharpoonup> real)" where
  "floor_getitem d k =
     (case d k of Some v \<Rightarrow> (v, d) | None \<Rightarrow> (MIN_PROB, d(k \<mapsto> MIN_PROB)))"

definition nested_getitem ::
  "('k \<rightharpoonup> ('j \<rightharpoonup> 'v)) \<Rightarrow> 'k \<Rightarrow> ('j \<rightharpoonup> 'v) \<times> ('k \<rightharpoonup> ('j \<rightharpoonup> 'v))" where
  "nested_getitem d k =
     (case d k of Some inner \<Rightarrow> (inner, d) | None \<Rightarrow> (Map.empty, d(k \<mapsto> Map.empty)))"

text \<open>
  \<open>self.translation_table[t][s]\<close>: the value read and the model afterwards. The inner
  dictionary is shared with the outer one, so what the inner read stores is visible
  through the outer dictionary.
\<close>

definition translation_lookup ::
  "IBMModel \<Rightarrow> string \<Rightarrow> string option \<Rightarrow> real \<times> IBMModel" where
  "translation_lookup self t s =
     (let (row, table) = nested_getitem (translation_table self) t;
          (p, row') = floor_getitem row s
      in (p, self\<lparr>translation_table := table(t \<mapsto> row')\<rparr>))"

text \<open>\<open>self.alignment_table[i][j][l][m]\<close>.\<close>

definition alignment_lookup ::
  "IBMModel \<Rightarrow> int \<Rightarrow> int \<Rightarrow> int \<Rightarrow> int \<Rightarrow> real \<times> IBMModel" where
  "alignment_lookup self i j l m =
     (let (d1, table) = nested_getitem (alignment_table self) i;
          (d2, d1') = nested_getitem d1 j;
          (d3, d2') = nested_getitem d2 l;
          (p, d3') = floor_getitem d3 m
      in (p, self\<lparr>alignment_table := table(i \<mapsto> d1'(j \<mapsto> d2'(l \<mapsto> d3')))\<rparr>))"

section \<open>IBMModel.sample\<close>

text \<open>
  Below, \<open>trg\<close> and \<open>src\<close> are the arguments \<open>trg_sentence\<close> and \<open>src_sentence\<close>.
  The loop over \<open>ii\<close> (lines 147-154): the best source position for target position
  \<open>jj\<close> under the Model 2 score, with the tables threaded through the reads.
\<close>

fun model2_scan ::
  "string list \<Rightarrow> string option list \<Rightarrow> nat \<Rightarrow> nat list \<Rightarrow> real \<Rightarrow> nat \<Rightarrow> IBMModel
     \<Rightarrow> (real \<times> nat) \<times> IBMModel" where
  "model2_scan trg src jj [] max_alignment_prob best_i self =
     ((max_alignment_prob, best_i), self)"
| "model2_scan trg src jj (ii # rest) max_alignment_prob best_i self =
     (let s = src ! ii;
          t = trg ! (jj - 1);
          (tp, self1) = translation_lookup self t s;
          (ap, self2) = alignment_lookup self1 (int ii) (int jj)
                          (int (length src) - 1) (int (length trg));
          alignment_prob = tp * ap
      in if alignment_prob > max_alignment_prob
         then model2_scan trg src jj rest alignment_prob ii self2
         else model2_scan trg src jj rest max_alignment_prob best_i self2)"

text \<open>
  The loop over \<open>jj\<close> (lines 141-157). \<open>best_i\<close> starts at 1, and
  \<open>fertility_of_i[best_i] += 1\<close> raises when that position does not exist.
\<close>

fun seed_loop ::
  "string list \<Rightarrow> string option list \<Rightarrow> nat \<Rightarrow> nat list \<Rightarrow> int list \<Rightarrow> int list \<Rightarrow> IBMModel
     \<Rightarrow> (error + int list \<times> int list) \<times> IBMModel" where
  "seed_loop trg src j [] al fe self = (Inr (al, fe), self)"
| "seed_loop trg src j (jj # rest) al fe self =
     (if jj \<noteq> j
      then (let ((max_alignment_prob, best_i), self') =
                  model2_scan trg src jj [0..<length src]
                    MIN_PROB 1 self
            in if \<not> jj < length al then (Inl IndexError, self')
               else if \<not> best_i < length fe then (Inl IndexError, self')
               else seed_loop trg src j rest
                      (al[jj := int best_i]) (fe[best_i := fe ! best_i + 1]) self')
      else seed_loop trg src j rest al fe self)"

text \<open>
  Lines 134-161 for the peg \<open>(i, j)\<close>: the seed AlignmentInfo. Here \<open>i\<close> comes from
  \<open>range(0, l + 1)\<close> and \<open>j\<close> from \<open>range(1, m + 1)\<close>, so the two pegging assignments
  are in range.
\<close>

definition seed_alignment ::
  "string list \<Rightarrow> string option list \<Rightarrow> nat \<Rightarrow> nat \<Rightarrow> IBMModel
     \<Rightarrow> (error + AlignmentInfo) \<times> IBMModel" where
  "seed_alignment trg src i j self =
     (let m = length trg;
          al = (replicate (m + 1) 0)[j := int i];
          fe = (replicate (length src) 0)[i := 1]
      in case seed_loop trg src j [1..<m + 1] al fe self of
           (Inl e, self') \<Rightarrow> (Inl e, self')
         | (Inr (al', fe'), self') \<Rightarrow>
             (Inr \<lparr>alignment = al', fertility_of_i = fe',
                   src_sentence = src, trg_sentence = trg\<rparr>, self'))"

text \<open>
  The body of the peg loops (lines 134-164). \<open>None\<close>: the hill climb never returns;
  \<open>Inl\<close>: an exception, with the tables as the reads so far left them.
\<close>

definition sample_peg ::
  "(AlignmentInfo \<Rightarrow> real) \<Rightarrow> string list \<Rightarrow> string option list \<Rightarrow> nat \<Rightarrow> nat
     \<Rightarrow> AlignmentInfo_set \<Rightarrow> IBMModel \<Rightarrow> ((error + AlignmentInfo_set) \<times> IBMModel) option" where
  "sample_peg probability trg src i j sampled_alignments self =
     (case seed_alignment trg src i j self of
        (Inl e, self') \<Rightarrow> Some (Inl e, self')
      | (Inr alignment_info, self') \<Rightarrow>
          (case hillclimb probability alignment_info j of
             None \<Rightarrow> None
           | Some (Inl e) \<Rightarrow> Some (Inl e, self')
           | Some (Inr best_alignment) \<Rightarrow>
               (case neighboring best_alignment j of
                  Inl e \<Rightarrow> Some (Inl e, self')
                | Inr neighbors \<Rightarrow>
                    Some (Inr (set_update sampled_alignments neighbors), self'))))"

fun sample_loop ::
  "(AlignmentInfo \<Rightarrow> real) \<Rightarrow> string list \<Rightarrow> string option list \<Rightarrow> (nat \<times> nat) list
     \<Rightarrow> AlignmentInfo_set \<Rightarrow> IBMModel \<Rightarrow> ((error + AlignmentInfo_set) \<times> IBMModel) option" where
  "sample_loop probability trg src [] sampled_alignments self =
     Some (Inr sampled_alignments, self)"
| "sample_loop probability trg src ((i, j) # pegs) sampled_alignments self =
     (case sample_peg probability trg src i j sampled_alignments self of
        None \<Rightarrow> None
      | Some (Inl e, self') \<Rightarrow> Some (Inl e, self')
      | Some (Inr sampled_alignments', self') \<Rightarrow>
          sample_loop probability trg src pegs sampled_alignments' self')"

text \<open>
  \<open>sample\<close>: the pegs are all \<open>(i, j)\<close> with \<open>i\<close> in \<open>range(0, l + 1)\<close> (outer loop) and
  \<open>j\<close> in \<open>range(1, m + 1)\<close> (inner loop).
\<close>

definition sample ::
  "(AlignmentInfo \<Rightarrow> real) \<Rightarrow> IBMModel \<Rightarrow> string list \<Rightarrow> string option list
     \<Rightarrow> ((error + AlignmentInfo_set) \<times> IBMModel) option" where
  "sample probability self trg src =
     sample_loop probability trg src
       (List.product [0..<length src] [1..<length trg + 1]) [] self"

section \<open>The fertility invariant\<close>

text \<open>
  The number of target positions \<open>1..m\<close> that an alignment tuple maps to the value
  \<open>i\<close>, and the invariant of an AlignmentInfo: the alignment tuple has one entry per
  target position and the unused entry 0, the fertility tuple one entry per source
  position (NULL included), the fertilities sum to \<open>m\<close>, and the fertility of every
  source position is the number of target positions aligned to it.
\<close>

definition aligned_count :: "int list \<Rightarrow> nat \<Rightarrow> int \<Rightarrow> nat" where
  "aligned_count al m i = length (filter (\<lambda>j. al ! j = i) [1..<m + 1])"

definition fertility_invariant :: "AlignmentInfo \<Rightarrow> bool" where
  "fertility_invariant a \<longleftrightarrow>
     (let m = length (trg_sentence a); n = length (src_sentence a)
      in length (alignment a) = m + 1 \<and> length (fertility_of_i a) = n \<and>
         sum_list (fertility_of_i a) = int m \<and>
         list_all (\<lambda>i. fertility_of_i a ! i = int (aligned_count (alignment a) m (int i)))
           [0..<n])"

section \<open>Example inputs\<close>

text \<open>
  The model as \<open>__init__\<close> leaves it: empty tables and \<open>p1 = 0.5\<close>.
\<close>

definition model0 :: IBMModel where
  "model0 = \<lparr>translation_table = Map.empty, alignment_table = Map.empty,
              fertility_table = Map.empty, p1 = 1 / 2\<rparr>"

text \<open>
  A two-word target sentence over the source \<open>(NULL, a)\<close> with both words aligned to
  NULL; the alignment that moves the second word to \<open>a\<close>; the first alignment again with
  a fertility tuple that does not belong to it; and a score that prefers the alignment
  of the second word to \<open>a\<close>.
\<close>

definition seed0 :: AlignmentInfo where
  "seed0 = \<lparr>alignment = [0, 0, 0], fertility_of_i = [2, 0],
             src_sentence = [None, Some ''a''], trg_sentence = [''x'', ''y'']\<rparr>"

definition better0 :: AlignmentInfo where
  "better0 = \<lparr>alignment = [0, 0, 1], fertility_of_i = [1, 1],
               src_sentence = [None, Some ''a''], trg_sentence = [''x'', ''y'']\<rparr>"

definition stale0 :: AlignmentInfo where
  "stale0 = \<lparr>alignment = [0, 0, 0], fertility_of_i = [1, 1],
              src_sentence = [None, Some ''a''], trg_sentence = [''x'', ''y'']\<rparr>"

definition prob0 :: "AlignmentInfo \<Rightarrow> real" where
  "prob0 a = real_of_int (alignment a ! 2)"

text \<open>A three-word target sentence, and its neighbour with positions 2 and 3 swapped.\<close>

definition seed1 :: AlignmentInfo where
  "seed1 = \<lparr>alignment = [0, 0, 1, 0], fertility_of_i = [2, 1],
             src_sentence = [None, Some ''a''], trg_sentence = [''x'', ''y'', ''z'']\<rparr>"

definition swapped1 :: AlignmentInfo where
  "swapped1 = \<lparr>alignment = [0, 0, 0, 1], fertility_of_i = [2, 1],
                src_sentence = [None, Some ''a''], trg_sentence = [''x'', ''y'', ''z'']\<rparr>"

section \<open>AlignmentInfo: equality, hash and set membership\<close>

lemma set_add_same:
  "AlignmentInfo_eq a b \<Longrightarrow> set_add (set_add S a) b = set_add S a"
  by (auto simp: set_add_def set_contains_def list_ex_iff AlignmentInfo_eq_def)

text \<open>
  Claim C7. Two AlignmentInfo objects are equal exactly when their alignment tuples are
  equal, and equal objects have equal hashes. In particular two objects with the same
  alignment and different fertility tuples are equal, have the same hash, and adding the
  second to a set that holds the first leaves the set as it is.
\<close>

theorem AlignmentInfo_eq_hash_alignment_only:
  "(AlignmentInfo_eq a b \<longleftrightarrow> alignment a = alignment b) \<and>
   (AlignmentInfo_eq a b \<longrightarrow> AlignmentInfo_hash hash a = AlignmentInfo_hash hash b) \<and>
   (alignment a = alignment b \<and> fertility_of_i a \<noteq> fertility_of_i b \<longrightarrow>
      AlignmentInfo_eq a b \<and> AlignmentInfo_hash hash a = AlignmentInfo_hash hash b \<and>
      set_add (set_add S a) b = set_add S a \<and> set_add (set_add [] a) b = [a])"
  by (auto simp: set_add_def set_contains_def list_ex_iff AlignmentInfo_eq_def
        AlignmentInfo_hash_def)

theorem AlignmentInfo_eq_hash_alignment_only_witness:
  "alignment seed0 = alignment stale0 \<and> fertility_of_i seed0 \<noteq> fertility_of_i stale0 \<and>
   AlignmentInfo_eq seed0 stale0 \<and>
   AlignmentInfo_hash sum_list seed0 = AlignmentInfo_hash sum_list stale0 \<and>
   set_add (set_add [] seed0) stale0 = [seed0]"
proof -
  have "alignment seed0 = alignment stale0 \<and> fertility_of_i seed0 \<noteq> fertility_of_i stale0"
    by (simp add: seed0_def stale0_def)
  with AlignmentInfo_eq_hash_alignment_only [of seed0 stale0 sum_list "[]"]
  show ?thesis by blast
qed

section \<open>Table reads\<close>

text \<open>
  Claim C8. Reading the translation probability of a (target word, source word) pair
  that is not in the table yields \<open>MIN_PROB\<close>, which is \<open>1.0e-12\<close> and not zero; the
  read is a value, not an exception.
\<close>

theorem translation_lookup_unseen_floor:
  "translation_table self t = None \<or>
   (\<exists>row. translation_table self t = Some row \<and> row s = None)
   \<Longrightarrow> fst (translation_lookup self t s) = MIN_PROB \<and> MIN_PROB = 1 / 10 ^ 12 \<and> MIN_PROB \<noteq> 0"
  by (auto simp: translation_lookup_def nested_getitem_def floor_getitem_def MIN_PROB_def
        split: option.splits)

theorem translation_lookup_unseen_floor_witness:
  "translation_table model0 ''x'' = None \<and>
   fst (translation_lookup model0 ''x'' (Some ''a'')) = 1 / 10 ^ 12"
  using translation_lookup_unseen_floor [of model0 "''x''" "Some ''a''"]
  by (simp add: model0_def)

section \<open>Neighbours\<close>

lemma add_candidates_members:
  "add_candidates S cs = Inr N \<Longrightarrow> n \<in> set N \<Longrightarrow> n \<in> set S \<or> Inr n \<in> set cs"
proof (induction S cs rule: add_candidates.induct)
  case (3 neighbors x cs)
  then show ?case by (auto simp: set_add_def split: if_splits)
qed auto

lemma neighboring_members:
  "neighboring a peg = Inr N \<Longrightarrow> n \<in> set N
   \<Longrightarrow> Inr n \<in> set (move_candidates a peg) \<or> Inr n \<in> set (swap_candidates a peg)"
  unfolding neighboring_def by (drule (1) add_candidates_members) auto

lemma concat_map_if_member:
  assumes "x \<in> set (concat (map (\<lambda>j. if P j then f j else []) js))"
  obtains j where "j \<in> set js" "P j" "x \<in> set (f j)"
  using assms by (auto split: if_splits)

lemma target_position_range:
  "j \<in> set [1..<m + 1] \<Longrightarrow> 1 \<le> j \<and> j \<le> m"
  by (simp del: upt_Suc)

lemma move_candidates_cases:
  assumes "Inr n \<in> set (move_candidates a peg)"
  obtains j i where "j \<noteq> peg" "1 \<le> j" "j \<le> length (trg_sentence a)"
    "i < length (src_sentence a)" "move_point a j i = Inr n"
proof -
  from assms obtain j where j: "j \<in> set [1..<length (trg_sentence a) + 1]" and p: "j \<noteq> peg"
    and "Inr n \<in> set (map (\<lambda>i. move_point a j i) [0..<length (src_sentence a)])"
    unfolding move_candidates_def by (rule concat_map_if_member)
  then obtain i where i: "i < length (src_sentence a)" and m: "move_point a j i = Inr n"
    by auto
  from target_position_range [OF j] have j1: "1 \<le> j" and j2: "j \<le> length (trg_sentence a)"
    by simp_all
  from p j1 j2 i m show thesis by (rule that)
qed

lemma swap_candidates_cases:
  assumes "Inr n \<in> set (swap_candidates a peg)"
  obtains j other_j where "j \<noteq> peg" "other_j \<noteq> peg" "other_j \<noteq> j"
    "1 \<le> j" "j \<le> length (trg_sentence a)"
    "1 \<le> other_j" "other_j \<le> length (trg_sentence a)"
    "swap_points a j other_j = Inr n"
proof -
  from assms obtain j where j: "j \<in> set [1..<length (trg_sentence a) + 1]" and p: "j \<noteq> peg"
    and "Inr n \<in> set (map (\<lambda>other_j. swap_points a j other_j)
           (filter (\<lambda>other_j. other_j \<noteq> peg \<and> other_j \<noteq> j)
              [1..<length (trg_sentence a) + 1]))"
    unfolding swap_candidates_def by (rule concat_map_if_member)
  then have "Inr n \<in> swap_points a j `
      {other_j \<in> set [1..<length (trg_sentence a) + 1]. other_j \<noteq> peg \<and> other_j \<noteq> j}"
    by (simp only: set_map set_filter)
  then obtain other_j where o: "other_j \<in> set [1..<length (trg_sentence a) + 1]"
    and op: "other_j \<noteq> peg" and oj: "other_j \<noteq> j" and sw: "swap_points a j other_j = Inr n"
    by (elim imageE CollectE conjE) (rule that, simp_all)
  from target_position_range [OF j] have j1: "1 \<le> j" and j2: "j \<le> length (trg_sentence a)"
    by simp_all
  from target_position_range [OF o] have o1: "1 \<le> other_j"
    and o2: "other_j \<le> length (trg_sentence a)" by simp_all
  from p op oj j1 j2 o1 o2 sw show thesis by (rule that)
qed

lemma move_point_alignment:
  "move_point a j i = Inr n \<Longrightarrow> alignment n = (alignment a)[j := int i] \<and> src_sentence n = src_sentence a \<and> trg_sentence n = trg_sentence a"
  by (auto simp: move_point_def Let_def split: if_splits sum.splits)

lemma swap_points_fields:
  "swap_points a j oj = Inr n \<Longrightarrow> alignment n = (alignment a)[j := alignment a ! oj, oj := alignment a ! j] 
    \<and> fertility_of_i n = fertility_of_i a \<and> src_sentence n = src_sentence a \<and> trg_sentence n = trg_sentence a
    \<and> j < length (alignment a) \<and> oj < length (alignment a)"
  by (auto simp: swap_points_def Let_def split: if_splits)

lemma move_point_length: "move_point a j i = Inr n \<Longrightarrow> j < length (alignment a)"
  by (auto simp: move_point_def Let_def split: if_splits sum.splits)

lemma move_point_identity:
  assumes "move_point a j i = Inr n" "alignment a ! j = int i"
  shows "fertility_of_i n = fertility_of_i a"
  using assms by (auto simp: move_point_def Let_def subscript_def split: if_splits sum.splits)

lemma move_eq_swap_identity:
  assumes "xs[j := v] = xs[p := xs ! q, q := xs ! p]" "p \<noteq> q" "p < length xs" "q < length xs" "j < length xs"
  shows "v = xs ! j"
proof -
  have P: "xs[j := v] ! p = xs ! q" using assms by simp
  have Q: "xs[j := v] ! q = xs ! p" using assms by simp
  have "xs ! p = xs ! q"
  proof (cases "p = j")
    case True
    then have "q \<noteq> j" using assms by simp
    then show ?thesis using Q by simp
  next
    case False
    then show ?thesis using P by simp
  qed
  then have "xs[p := xs ! q, q := xs ! p] = xs" by (metis list_update_id)
  then have e: "xs[j := v] = xs" using assms(1) by simp
  have "v = xs[j := v] ! j" using assms(5) by simp
  then show ?thesis by (simp only: e)
qed

lemmas neighboring_defs =
  neighboring_def move_candidates_def swap_candidates_def move_point_def swap_points_def
  subscript_def set_add_def set_contains_def AlignmentInfo_eq_def

lemma neighboring_seed0: "neighboring seed0 1 = Inr [seed0, better0]"
  by (simp add: neighboring_defs seed0_def better0_def upt_rec)

lemma neighboring_better0: "neighboring better0 1 = Inr [seed0, better0]"
  by (simp add: neighboring_defs seed0_def better0_def upt_rec)

text \<open>
  Claim C5. Every member of \<open>neighboring(a, peg)\<close> has the alignment entry of \<open>a\<close> at
  the pegged position (and an alignment tuple of the same length, so that the subscript
  is defined for both or for neither).
\<close>

theorem neighboring_keeps_pegged_position:
  "neighboring a peg = Inr N \<Longrightarrow> n \<in> set N \<Longrightarrow>
   length (alignment n) = length (alignment a) \<and> alignment n ! peg = alignment a ! peg"
proof -
  assume "neighboring a peg = Inr N" "n \<in> set N"
  from neighboring_members [OF this] show ?thesis
  proof
    assume "Inr n \<in> set (move_candidates a peg)"
    then obtain j i where "j \<noteq> peg" "move_point a j i = Inr n"
      by (rule move_candidates_cases)
    then show ?thesis using move_point_alignment [of a j i n] by simp
  next
    assume "Inr n \<in> set (swap_candidates a peg)"
    then obtain j other_j where "j \<noteq> peg" "other_j \<noteq> peg" "swap_points a j other_j = Inr n"
      by (rule swap_candidates_cases)
    then show ?thesis using swap_points_fields [of a j other_j n] by simp
  qed
qed

theorem neighboring_keeps_pegged_position_witness:
  "neighboring seed0 1 = Inr [seed0, better0] \<and> better0 \<in> set [seed0, better0] \<and>
   length (alignment better0) = length (alignment seed0) \<and>
   alignment better0 ! 1 = alignment seed0 ! 1"
proof -
  have member: "better0 \<in> set [seed0, better0]" by simp
  from neighboring_keeps_pegged_position [OF neighboring_seed0 member] neighboring_seed0 member
  show ?thesis by (intro conjI) simp_all
qed

text \<open>
  Claim C6. Every AlignmentInfo the swap loops construct has the fertility tuple of the
  input; and the member of the returned set that is equal to it (the object itself, or
  an equal one that the move loops added first) has that fertility tuple too.
\<close>

theorem swap_neighbors_keep_fertility:
  "Inr c \<in> set (swap_candidates a peg) \<Longrightarrow>
   fertility_of_i c = fertility_of_i a \<and>
   (\<forall>N n. neighboring a peg = Inr N \<and> n \<in> set N \<and> AlignmentInfo_eq n c
      \<longrightarrow> fertility_of_i n = fertility_of_i a)"
proof (intro conjI allI impI)
  assume c: "Inr c \<in> set (swap_candidates a peg)"
  from c obtain p q where
    pq: "q \<noteq> p" and sw: "swap_points a p q = Inr c" by (rule swap_candidates_cases)
  from swap_points_fields [OF sw] have
    ca: "alignment c = (alignment a)[p := alignment a ! q, q := alignment a ! p]" and
    cf: "fertility_of_i c = fertility_of_i a" and
    pl: "p < length (alignment a)" and ql: "q < length (alignment a)" by blast+
  show "fertility_of_i c = fertility_of_i a" by (rule cf)
  fix N n
  assume "neighboring a peg = Inr N \<and> n \<in> set N \<and> AlignmentInfo_eq n c"
  then have N: "neighboring a peg = Inr N" and n: "n \<in> set N"
    and eq: "alignment n = alignment c" by (simp_all add: AlignmentInfo_eq_def)
  from neighboring_members [OF N n] show "fertility_of_i n = fertility_of_i a"
  proof
    assume "Inr n \<in> set (move_candidates a peg)"
    then obtain j i where m: "move_point a j i = Inr n"
      by (rule move_candidates_cases)
    from move_point_alignment [OF m] have "alignment n = (alignment a)[j := int i]" by blast
    then have "(alignment a)[j := int i] = alignment n" by (rule sym)
    also note eq
    also note ca
    finally have
      "(alignment a)[j := int i] = (alignment a)[p := alignment a ! q, q := alignment a ! p]" .
    from move_eq_swap_identity [OF this pq [symmetric] pl ql move_point_length [OF m]]
    have "alignment a ! j = int i" by (rule sym)
    then show ?thesis by (rule move_point_identity [OF m])
  next
    assume "Inr n \<in> set (swap_candidates a peg)"
    then obtain p' q' where "swap_points a p' q' = Inr n"
      by (rule swap_candidates_cases)
    from swap_points_fields [OF this] show ?thesis by blast
  qed
qed

lemma swap_candidates_seed1: "Inr swapped1 \<in> set (swap_candidates seed1 1)"
  by (simp add: swap_candidates_def swap_points_def seed1_def swapped1_def upt_rec)

lemma neighboring_seed1:
  "neighboring seed1 1 =
     Inr [seed1\<lparr>alignment := [0, 0, 0, 0], fertility_of_i := [3, 0]\<rparr>, seed1,
          seed1\<lparr>alignment := [0, 0, 1, 1], fertility_of_i := [1, 2]\<rparr>, swapped1]"
  by (simp add: neighboring_defs seed1_def swapped1_def upt_rec)

theorem swap_neighbors_keep_fertility_witness:
  "Inr swapped1 \<in> set (swap_candidates seed1 1) \<and>
   (\<exists>N. neighboring seed1 1 = Inr N \<and> swapped1 \<in> set N) \<and>
   AlignmentInfo_eq swapped1 swapped1 \<and>
   fertility_of_i swapped1 = fertility_of_i seed1"
proof -
  have e: "AlignmentInfo_eq swapped1 swapped1" by (simp add: AlignmentInfo_eq_def)
  have n: "\<exists>N. neighboring seed1 1 = Inr N \<and> swapped1 \<in> set N"
    by (rule exI, rule conjI, rule neighboring_seed1) simp
  from swap_neighbors_keep_fertility [OF swap_candidates_seed1] swap_candidates_seed1 e n
  show ?thesis by blast
qed

section \<open>Hill climbing\<close>

lemma hillclimb_loop_stop:
  "neighboring x j = Inr N \<Longrightarrow> AlignmentInfo_eq (climb_pass p N x) x
   \<Longrightarrow> hillclimb_loop p j x = Some (Inr (climb_pass p N x))"
  by (subst hillclimb_loop.simps) simp

lemma hillclimb_loop_continue:
  "neighboring x j = Inr N \<Longrightarrow> \<not> AlignmentInfo_eq (climb_pass p N x) x
   \<Longrightarrow> hillclimb_loop p j x = hillclimb_loop p j (climb_pass p N x)"
  by (subst hillclimb_loop.simps) simp

lemma hillclimb_loop_error:
  "neighboring x j = Inl e \<Longrightarrow> hillclimb_loop p j x = Some (Inl e)"
  by (subst hillclimb_loop.simps) simp

lemma hillclimb_loop_seed0: "hillclimb_loop prob0 1 seed0 = Some (Inr better0)"
proof -
  have cp0: "climb_pass prob0 [seed0, better0] seed0 = better0"
    by (simp add: climb_pass_def prob0_def seed0_def better0_def)
  have cp1: "climb_pass prob0 [seed0, better0] better0 = better0"
    by (simp add: climb_pass_def prob0_def seed0_def better0_def)
  have "\<not> AlignmentInfo_eq better0 seed0"
    by (simp add: AlignmentInfo_eq_def seed0_def better0_def)
  then have "hillclimb_loop prob0 1 seed0 = hillclimb_loop prob0 1 better0"
    using hillclimb_loop_continue [OF neighboring_seed0, of prob0] by (simp add: cp0)
  also have "\<dots> = Some (Inr better0)"
    using hillclimb_loop_stop [OF neighboring_better0, of prob0]
    by (simp add: cp1 AlignmentInfo_eq_def)
  finally show ?thesis .
qed

text \<open>
  Claim C1 says that the alignment \<open>hillclimb\<close> returns has no neighbour of strictly
  greater probability. The loop climbs from \<open>seed0\<close> to \<open>better0\<close>, but the method
  returns its argument: the result is \<open>seed0\<close>, whose neighbour \<open>better0\<close> scores
  strictly higher.
\<close>

theorem hillclimb_returns_seed_not_fixed_point:
  "hillclimb prob0 seed0 1 = Some (Inr seed0) \<and>
   hillclimb_loop prob0 1 seed0 = Some (Inr better0) \<and>
   neighboring seed0 1 = Inr [seed0, better0] \<and>
   prob0 better0 > prob0 seed0"
  unfolding hillclimb_def hillclimb_loop_seed0 neighboring_seed0
  by (simp add: prob0_def seed0_def better0_def)

section \<open>Sampling a one-word target sentence\<close>

lemma neighboring_single: "length (trg_sentence a) = Suc 0 \<Longrightarrow> neighboring a (Suc 0) = Inr []"
  by (simp add: neighboring_def move_candidates_def swap_candidates_def)

lemma hillclimb_single: "length (trg_sentence a) = Suc 0 \<Longrightarrow> hillclimb p a (Suc 0) = Some (Inr a)"
  using hillclimb_loop_stop [OF neighboring_single, of a p]
  by (simp add: hillclimb_def climb_pass_def AlignmentInfo_eq_def)

lemma seed_alignment_single:
  "length trg = Suc 0 \<Longrightarrow> \<exists>x. seed_alignment trg src i (Suc 0) self = (Inr x, self) \<and> trg_sentence x = trg"
  by (simp add: seed_alignment_def)

lemma sample_peg_single:
  "length trg = Suc 0 \<Longrightarrow> sample_peg p trg src i (Suc 0) S self = Some (Inr S, self)"
  using seed_alignment_single [of trg src i self]
  by (auto simp: sample_peg_def hillclimb_single neighboring_single set_update_def)

lemma sample_loop_single:
  "length trg = Suc 0 \<Longrightarrow> \<forall>peg \<in> set pegs. snd peg = Suc 0 \<Longrightarrow> sample_loop p trg src pegs S self = Some (Inr S, self)"
  by (induction pegs) (auto simp: sample_peg_single)

text \<open>
  Claim C10. For a target sentence of one word and any source sentence, \<open>sample\<close>
  returns the empty set (and leaves the tables as they were): the only target position
  is the pegged one, so \<open>neighboring\<close> constructs nothing.
\<close>

theorem sample_single_target_word_empty: "length trg = 1 \<Longrightarrow> sample p self trg src = Some (Inr [], self)"
  unfolding sample_def by (rule sample_loop_single) auto

theorem sample_single_target_word_empty_witness:
  "length [''x''] = 1 \<and> sample prob0 model0 [''x''] [None, Some ''a''] = Some (Inr [], model0)"
  using sample_single_target_word_empty [of "[''x'']" prob0 model0 "[None, Some ''a'']"] by simp

section \<open>Counting aligned positions\<close>

lemma filter_update_other:
  "j \<notin> set js \<Longrightarrow> filter (\<lambda>q. al[j := x] ! q = v) js = filter (\<lambda>q. al ! q = v) js"
  by (rule filter_cong [OF refl]) (metis nth_list_update_neq)

lemma count_update:
  "distinct js \<Longrightarrow> j < length al \<Longrightarrow>
   int (length (filter (\<lambda>q. al[j := x] ! q = v) js)) =
   int (length (filter (\<lambda>q. al ! q = v) js)) +
     (if j \<in> set js then (if x = v then 1 else 0) - (if al ! j = v then 1 else 0) else 0)"
proof (induction js)
  case Nil
  then show ?case by simp
next
  case (Cons q js)
  show ?case
  proof (cases "q = j")
    case True
    with Cons.prems have "j \<notin> set js" by simp
    then show ?thesis using True Cons.prems by (simp add: filter_update_other)
  next
    case False
    then show ?thesis using Cons by (simp add: filter_update_other)
  qed
qed

lemma indicator_sum:
  "(\<Sum>i = 0..<n. if (v::int) = int i then (1::int) else 0) = (if 0 \<le> v \<and> v < int n then 1 else 0)"
proof -
  have "(\<Sum>i = 0..<n. if v = int i then (1::int) else 0) = (\<Sum>i = 0..<n. if nat v = i \<and> 0 \<le> v then 1 else 0)"
    by (rule sum.cong) auto
  also have "\<dots> = (if 0 \<le> v \<and> v < int n then 1 else 0)"
    by (cases "0 \<le> v") (auto simp: sum.delta)
  finally show ?thesis .
qed

lemma count_sum:
  "(\<Sum>i = 0..<n. int (length (filter (\<lambda>q. al ! q = int i) js))) =
   int (length (filter (\<lambda>q. 0 \<le> al ! q \<and> al ! q < int n) js))"
proof (induction js)
  case Nil
  then show ?case by simp
next
  case (Cons q js)
  have "(\<Sum>i = 0..<n. int (length (filter (\<lambda>q. al ! q = int i) (q # js)))) =
        (\<Sum>i = 0..<n. (if al ! q = int i then 1 else 0) + int (length (filter (\<lambda>q. al ! q = int i) js)))"
    by (rule sum.cong) auto
  also have "\<dots> = (if 0 \<le> al ! q \<and> al ! q < int n then 1 else 0) +
       int (length (filter (\<lambda>q. 0 \<le> al ! q \<and> al ! q < int n) js))"
    by (simp only: sum.distrib indicator_sum Cons.IH)
  finally show ?case by simp
qed

lemma filter_all: "length (filter P xs) = length xs \<Longrightarrow> x \<in> set xs \<Longrightarrow> P x"
  by (induction xs) (auto simp: le_imp_less_Suc [OF length_filter_le] less_imp_neq dest: sym split: if_splits)

lemma sum_list_update_int:
  "k < length xs \<Longrightarrow> sum_list (xs[k := v]) = sum_list xs + v - (xs ! k :: int)"
  by (induction xs arbitrary: k) (auto split: nat.splits)

lemma fertility_invariantD:
  assumes "fertility_invariant a"
  shows "length (alignment a) = length (trg_sentence a) + 1"
    and "length (fertility_of_i a) = length (src_sentence a)"
    and "sum_list (fertility_of_i a) = int (length (trg_sentence a))"
    and "\<And>i. i < length (src_sentence a) \<Longrightarrow>
           fertility_of_i a ! i =
           int (aligned_count (alignment a) (length (trg_sentence a)) (int i))"
  using assms by (simp_all add: fertility_invariant_def Let_def list_all_iff)

lemma fertility_invariantI:
  assumes "length (alignment a) = length (trg_sentence a) + 1"
    and "length (fertility_of_i a) = length (src_sentence a)"
    and "sum_list (fertility_of_i a) = int (length (trg_sentence a))"
    and "\<And>i. i < length (src_sentence a) \<Longrightarrow>
           fertility_of_i a ! i =
           int (aligned_count (alignment a) (length (trg_sentence a)) (int i))"
  shows "fertility_invariant a"
  using assms by (simp add: fertility_invariant_def Let_def list_all_iff)

lemma invariant_entries_in_range:
  assumes inv: "fertility_invariant a" and j: "j \<in> set [1..<length (trg_sentence a) + 1]"
  shows "0 \<le> alignment a ! j \<and> alignment a ! j < int (length (src_sentence a))"
proof -
  let ?n = "length (src_sentence a)" and ?m = "length (trg_sentence a)"
  let ?js = "[1..<?m + 1]"
  have "int ?m = sum_list (fertility_of_i a)"
    using fertility_invariantD(3) [OF inv] by simp
  also have "\<dots> = (\<Sum>i = 0..<?n. fertility_of_i a ! i)"
    using fertility_invariantD(2) [OF inv] by (simp add: sum_list_sum_nth)
  also have "\<dots> = (\<Sum>i = 0..<?n. int (length (filter (\<lambda>q. alignment a ! q = int i) ?js)))"
    by (rule sum.cong) (simp_all add: fertility_invariantD(4) [OF inv] aligned_count_def)
  also have "\<dots> = int (length (filter (\<lambda>q. 0 \<le> alignment a ! q \<and> alignment a ! q < int ?n) ?js))"
    by (rule count_sum)
  finally have "length (filter (\<lambda>q. 0 \<le> alignment a ! q \<and> alignment a ! q < int ?n) ?js) = ?m"
    by (simp only: of_nat_eq_iff)
  moreover have "length ?js = ?m" by (simp del: upt_Suc)
  ultimately have
    "length (filter (\<lambda>q. 0 \<le> alignment a ! q \<and> alignment a ! q < int ?n) ?js) = length ?js"
    by (simp only:)
  from filter_all [OF this j] show ?thesis .
qed

lemma distinct_target_positions: "distinct [1..<m + 1]"
  by (simp del: upt_Suc)

lemma target_position_length:
  "fertility_invariant a \<Longrightarrow> j \<in> set [1..<length (trg_sentence a) + 1]
   \<Longrightarrow> j < length (alignment a)"
  by (simp del: upt_Suc add: fertility_invariantD(1))

lemma move_point_result:
  assumes "j < length (alignment a)" "i < length (fertility_of_i a)"
    "0 \<le> alignment a ! j" "alignment a ! j < int (length (fertility_of_i a))"
  shows "move_point a j i =
    Inr \<lparr>alignment = (alignment a)[j := int i],
         fertility_of_i =
           ((fertility_of_i a)[i := fertility_of_i a ! i + 1])
             [nat (alignment a ! j) :=
                ((fertility_of_i a)[i := fertility_of_i a ! i + 1]) ! nat (alignment a ! j) - 1],
         src_sentence = src_sentence a, trg_sentence = trg_sentence a\<rparr>"
  using assms by (simp add: move_point_def subscript_def Let_def)

lemma move_point_invariant:
  assumes inv: "fertility_invariant a"
    and j: "j \<in> set [1..<length (trg_sentence a) + 1]"
    and i: "i < length (src_sentence a)"
  shows "\<exists>x. move_point a j i = Inr x \<and> fertility_invariant x"
proof -
  let ?al = "alignment a" and ?f = "fertility_of_i a"
  let ?n = "length (src_sentence a)" and ?m = "length (trg_sentence a)"
  let ?js = "[1..<?m + 1]"
  define k where "k = nat (?al ! j)"
  define f1 where "f1 = ?f[i := ?f ! i + 1]"
  define x where "x = \<lparr>alignment = ?al[j := int i], fertility_of_i = f1[k := f1 ! k - 1],
                       src_sentence = src_sentence a, trg_sentence = trg_sentence a\<rparr>"
  note lens = fertility_invariantD(1,2) [OF inv]
  from invariant_entries_in_range [OF inv j]
  have r: "0 \<le> ?al ! j" "?al ! j < int ?n" by simp_all
  then have k: "k < ?n" "int k = ?al ! j" by (simp_all add: k_def)
  have jl: "j < length ?al" by (rule target_position_length [OF inv j])
  have mv: "move_point a j i = Inr x"
    unfolding x_def f1_def k_def
    by (rule move_point_result) (use jl i r lens in simp_all)
  have f1_len: "length f1 = ?n" by (simp add: f1_def lens)
  have f1_sum: "sum_list f1 = sum_list ?f + 1"
    using i lens by (simp add: f1_def sum_list_update_int)
  have "sum_list (f1[k := f1 ! k - 1]) = sum_list f1 - 1"
    using k f1_len by (simp add: sum_list_update_int)
  with f1_sum have s: "sum_list (fertility_of_i x) = int ?m"
    by (simp add: x_def fertility_invariantD(3) [OF inv])
  have c: "fertility_of_i x ! i' = int (aligned_count (alignment x) ?m (int i'))"
    if i': "i' < ?n" for i'
  proof -
    have "int (aligned_count (alignment x) ?m (int i')) =
          int (aligned_count ?al ?m (int i')) + (if int i = int i' then 1 else 0)
            - (if ?al ! j = int i' then 1 else 0)"
      unfolding aligned_count_def x_def
      using count_update [where js = ?js and x = "int i" and v = "int i'",
          OF distinct_target_positions jl] j
      by simp
    also have "\<dots> = ?f ! i' + (if i = i' then 1 else 0) - (if k = i' then 1 else 0)"
      using fertility_invariantD(4) [OF inv i'] k(2) by auto
    also have "\<dots> = fertility_of_i x ! i'"
      using i i' k lens by (auto simp: x_def f1_def nth_list_update)
    finally show ?thesis by simp
  qed
  have "fertility_invariant x"
    by (rule fertility_invariantI) (simp_all add: x_def lens f1_len s [unfolded x_def, simplified] c [unfolded x_def, simplified])
  with mv show ?thesis by blast
qed

lemma swap_points_invariant:
  assumes inv: "fertility_invariant a"
    and j: "j \<in> set [1..<length (trg_sentence a) + 1]"
    and oj: "other_j \<in> set [1..<length (trg_sentence a) + 1]"
    and ne: "other_j \<noteq> j"
  shows "\<exists>x. swap_points a j other_j = Inr x \<and> fertility_invariant x"
proof -
  let ?al = "alignment a" and ?f = "fertility_of_i a"
  let ?n = "length (src_sentence a)" and ?m = "length (trg_sentence a)"
  let ?js = "[1..<?m + 1]"
  define al1 where "al1 = ?al[j := ?al ! other_j]"
  define x where "x = \<lparr>alignment = al1[other_j := ?al ! j], fertility_of_i = ?f,
                       src_sentence = src_sentence a, trg_sentence = trg_sentence a\<rparr>"
  note lens = fertility_invariantD(1,2) [OF inv]
  have jl: "j < length ?al" by (rule target_position_length [OF inv j])
  have ol: "other_j < length ?al" by (rule target_position_length [OF inv oj])
  have sw: "swap_points a j other_j = Inr x"
    using jl ol by (simp add: swap_points_def x_def al1_def Let_def)
  have ol1: "other_j < length al1" using ol by (simp add: al1_def)
  have c: "fertility_of_i x ! i' = int (aligned_count (alignment x) ?m (int i'))"
    if i': "i' < ?n" for i'
  proof -
    have "int (aligned_count (alignment x) ?m (int i')) =
          int (length (filter (\<lambda>q. al1 ! q = int i') ?js))
            + (if ?al ! j = int i' then 1 else 0) - (if al1 ! other_j = int i' then 1 else 0)"
      unfolding aligned_count_def x_def
      using count_update [where js = ?js and x = "?al ! j" and v = "int i'",
          OF distinct_target_positions ol1] oj
      by simp
    also have "int (length (filter (\<lambda>q. al1 ! q = int i') ?js)) =
          int (aligned_count ?al ?m (int i'))
            + (if ?al ! other_j = int i' then 1 else 0) - (if ?al ! j = int i' then 1 else 0)"
      unfolding aligned_count_def al1_def
      using count_update [where js = ?js and x = "?al ! other_j" and v = "int i'",
          OF distinct_target_positions jl] j
      by simp
    also have "al1 ! other_j = ?al ! other_j" using ne by (simp add: al1_def)
    finally show ?thesis using fertility_invariantD(4) [OF inv i'] by (simp add: x_def)
  qed
  have "fertility_invariant x"
    by (rule fertility_invariantI)
       (simp_all add: x_def al1_def lens fertility_invariantD(3) [OF inv]
          c [unfolded x_def al1_def, simplified])
  with sw show ?thesis by blast
qed

lemma move_candidates_elem:
  assumes "c \<in> set (move_candidates a peg)"
  obtains j i where "j \<in> set [1..<length (trg_sentence a) + 1]" "j \<noteq> peg"
    "i < length (src_sentence a)" "c = move_point a j i"
proof -
  from assms obtain j where j: "j \<in> set [1..<length (trg_sentence a) + 1]" and p: "j \<noteq> peg"
    and "c \<in> set (map (\<lambda>i. move_point a j i) [0..<length (src_sentence a)])"
    unfolding move_candidates_def by (rule concat_map_if_member)
  then obtain i where i: "i < length (src_sentence a)" and m: "c = move_point a j i"
    by auto
  from j p i m show thesis by (rule that)
qed

lemma swap_candidates_elem:
  assumes "c \<in> set (swap_candidates a peg)"
  obtains j other_j where "j \<in> set [1..<length (trg_sentence a) + 1]" "j \<noteq> peg"
    "other_j \<in> set [1..<length (trg_sentence a) + 1]" "other_j \<noteq> peg" "other_j \<noteq> j"
    "c = swap_points a j other_j"
proof -
  from assms obtain j where j: "j \<in> set [1..<length (trg_sentence a) + 1]" and p: "j \<noteq> peg"
    and "c \<in> set (map (\<lambda>other_j. swap_points a j other_j)
           (filter (\<lambda>other_j. other_j \<noteq> peg \<and> other_j \<noteq> j)
              [1..<length (trg_sentence a) + 1]))"
    unfolding swap_candidates_def by (rule concat_map_if_member)
  then have "c \<in> swap_points a j `
      {other_j \<in> set [1..<length (trg_sentence a) + 1]. other_j \<noteq> peg \<and> other_j \<noteq> j}"
    by (simp only: set_map set_filter)
  then obtain other_j where o: "other_j \<in> set [1..<length (trg_sentence a) + 1]"
    and op: "other_j \<noteq> peg" and oj: "other_j \<noteq> j" and sw: "c = swap_points a j other_j"
    by (elim imageE CollectE conjE) (rule that, simp_all)
  from j p o op oj sw show thesis by (rule that)
qed

lemma add_candidates_all:
  assumes "\<And>c. c \<in> set cs \<Longrightarrow> \<exists>x. c = Inr x \<and> P x" and "\<And>x. x \<in> set S \<Longrightarrow> P x"
  shows "\<exists>N. add_candidates S cs = Inr N \<and> (\<forall>x \<in> set N. P x)"
  using assms
proof (induction S cs rule: add_candidates.induct)
  case (1 neighbors)
  then show ?case by simp
next
  case (2 neighbors e cs)
  from "2.prems"(1) [of "Inl e"] show ?case by simp
next
  case (3 neighbors x cs)
  from "3.prems"(1) [of "Inr x"] have "P x" by simp
  with "3.prems"(2) have "\<And>y. y \<in> set (set_add neighbors x) \<Longrightarrow> P y"
    by (auto simp: set_add_def split: if_splits)
  with "3.IH" "3.prems"(1) show ?case by simp
qed

lemma neighboring_all:
  assumes mv: "\<And>j i. j \<in> set [1..<length (trg_sentence a) + 1] \<Longrightarrow> j \<noteq> peg \<Longrightarrow>
            i < length (src_sentence a) \<Longrightarrow> \<exists>x. move_point a j i = Inr x \<and> P x"
    and sw: "\<And>j other_j. j \<in> set [1..<length (trg_sentence a) + 1] \<Longrightarrow> j \<noteq> peg \<Longrightarrow>
            other_j \<in> set [1..<length (trg_sentence a) + 1] \<Longrightarrow> other_j \<noteq> peg \<Longrightarrow>
            other_j \<noteq> j \<Longrightarrow> \<exists>x. swap_points a j other_j = Inr x \<and> P x"
  shows "\<exists>N. neighboring a peg = Inr N \<and> (\<forall>x \<in> set N. P x)"
  unfolding neighboring_def
proof (rule add_candidates_all)
  fix c
  assume "c \<in> set (move_candidates a peg @ swap_candidates a peg)"
  then consider "c \<in> set (move_candidates a peg)" | "c \<in> set (swap_candidates a peg)"
    by auto
  then show "\<exists>x. c = Inr x \<and> P x"
  proof cases
    case 1
    then obtain j i where "j \<in> set [1..<length (trg_sentence a) + 1]" "j \<noteq> peg"
      "i < length (src_sentence a)" "c = move_point a j i"
      by (rule move_candidates_elem)
    with mv [of j i] show ?thesis by simp
  next
    case 2
    then obtain j other_j where "j \<in> set [1..<length (trg_sentence a) + 1]" "j \<noteq> peg"
      "other_j \<in> set [1..<length (trg_sentence a) + 1]" "other_j \<noteq> peg" "other_j \<noteq> j"
      "c = swap_points a j other_j"
      by (rule swap_candidates_elem)
    with sw [of j other_j] show ?thesis by simp
  qed
next
  fix x :: AlignmentInfo
  assume "x \<in> set []"
  then show "P x" by simp
qed

lemma neighboring_invariant:
  assumes "fertility_invariant a"
  shows "\<exists>N. neighboring a peg = Inr N \<and> (\<forall>x \<in> set N. fertility_invariant x)"
  by (rule neighboring_all)
     (use assms move_point_invariant swap_points_invariant in blast)+

section \<open>Termination of the hill climb\<close>

text \<open>
  The neighbours of an alignment that satisfies the invariant satisfy it again and share
  its sentence pair and its unused entry 0; there are finitely many such alignments, and
  every step of the loop moves to one of strictly greater probability.
\<close>

lemma target_position_positive: "j \<in> set [1..<m + 1] \<Longrightarrow> 0 < j"
  by (simp del: upt_Suc)

lemma neighboring_family:
  assumes "fertility_invariant a" "src_sentence a = src" "trg_sentence a = trg"
    "alignment a ! 0 = z"
  shows "\<exists>N. neighboring a peg = Inr N \<and>
     (\<forall>x \<in> set N. fertility_invariant x \<and> src_sentence x = src \<and> trg_sentence x = trg \<and>
        alignment x ! 0 = z)"
proof (rule neighboring_all)
  fix j i
  assume j: "j \<in> set [1..<length (trg_sentence a) + 1]" and i: "i < length (src_sentence a)"
  from move_point_invariant [OF assms(1) j i] obtain x where
    x: "move_point a j i = Inr x" "fertility_invariant x" by blast
  from move_point_alignment [OF x(1)] target_position_positive [OF j] assms(2-4)
  have "src_sentence x = src \<and> trg_sentence x = trg \<and> alignment x ! 0 = z" by simp
  with x show "\<exists>x. move_point a j i = Inr x \<and> fertility_invariant x \<and> src_sentence x = src \<and>
      trg_sentence x = trg \<and> alignment x ! 0 = z" by blast
next
  fix j other_j
  assume j: "j \<in> set [1..<length (trg_sentence a) + 1]"
    and oj: "other_j \<in> set [1..<length (trg_sentence a) + 1]" and ne: "other_j \<noteq> j"
  from swap_points_invariant [OF assms(1) j oj ne] obtain x where
    x: "swap_points a j other_j = Inr x" "fertility_invariant x" by blast
  from swap_points_fields [OF x(1)] target_position_positive [OF j]
    target_position_positive [OF oj] assms(2-4)
  have "src_sentence x = src \<and> trg_sentence x = trg \<and> alignment x ! 0 = z" by simp
  with x show "\<exists>x. swap_points a j other_j = Inr x \<and> fertility_invariant x \<and>
      src_sentence x = src \<and> trg_sentence x = trg \<and> alignment x ! 0 = z" by blast
qed

lemma invariant_determines_fertility:
  assumes "fertility_invariant x"
  shows "fertility_of_i x =
    map (\<lambda>i. int (aligned_count (alignment x) (length (trg_sentence x)) (int i)))
      [0..<length (src_sentence x)]"
  by (rule nth_equalityI)
     (simp_all add: fertility_invariantD(2) [OF assms] fertility_invariantD(4) [OF assms])

lemma invariant_alignment_values:
  assumes inv: "fertility_invariant x"
  shows "set (alignment x) \<subseteq> insert (alignment x ! 0) (int ` {0..<length (src_sentence x)})"
proof
  fix v
  assume "v \<in> set (alignment x)"
  then obtain q where q: "q < length (alignment x)" "v = alignment x ! q"
    by (auto simp: in_set_conv_nth)
  show "v \<in> insert (alignment x ! 0) (int ` {0..<length (src_sentence x)})"
  proof (cases "q = 0")
    case True
    with q show ?thesis by simp
  next
    case False
    with q fertility_invariantD(1) [OF inv]
    have "q \<in> set [1..<length (trg_sentence x) + 1]" by (simp del: upt_Suc)
    from invariant_entries_in_range [OF inv this] q(2)
    have "0 \<le> v" "v < int (length (src_sentence x))" by simp_all
    then have "v = int (nat v)" "nat v \<in> {0..<length (src_sentence x)}" by simp_all
    then show ?thesis by blast
  qed
qed

lemma finite_family:
  "finite {x. fertility_invariant x \<and> src_sentence x = src \<and> trg_sentence x = trg \<and>
              alignment x ! 0 = z}"
    (is "finite ?W")
proof -
  let ?V = "insert z (int ` {0..<length src})"
  let ?A = "{al. set al \<subseteq> ?V \<and> length al = length trg + 1}"
  let ?mk = "\<lambda>al. \<lparr>alignment = al,
      fertility_of_i = map (\<lambda>i. int (aligned_count al (length trg) (int i))) [0..<length src],
      src_sentence = src, trg_sentence = trg\<rparr>"
  have "finite ?A" by (rule finite_lists_length_eq) simp
  moreover have "?W \<subseteq> ?mk ` ?A"
  proof
    fix x
    assume "x \<in> ?W"
    then have inv: "fertility_invariant x" and s: "src_sentence x = src"
      and t: "trg_sentence x = trg" and z: "alignment x ! 0 = z" by simp_all
    have "alignment x \<in> ?A"
      using invariant_alignment_values [OF inv] fertility_invariantD(1) [OF inv] s t z
      by simp
    moreover have "x = ?mk (alignment x)"
      using invariant_determines_fertility [OF inv] s t by simp
    ultimately show "x \<in> ?mk ` ?A" by (rule rev_image_eqI)
  qed
  ultimately show ?thesis by (rule finite_surj)
qed

lemma climb_pass_result:
  "climb_pass p N c = c \<or> (climb_pass p N c \<in> set N \<and> p c < p (climb_pass p N c))"
  unfolding climb_pass_def
proof (induction N arbitrary: c)
  case Nil
  then show ?case by simp
next
  case (Cons y ys)
  let ?c1 = "if p c < p y then y else c"
  from Cons.IH [of ?c1] show ?case by (auto split: if_splits)
qed

lemma hillclimb_loop_returns:
  assumes "fertility_invariant x"
  shows "\<exists>y. hillclimb_loop p peg x = Some (Inr y)"
proof -
  define W where "W = {y. fertility_invariant y \<and> src_sentence y = src_sentence x \<and>
      trg_sentence y = trg_sentence x \<and> alignment y ! 0 = alignment x ! 0}"
  have fin: "finite W" unfolding W_def by (rule finite_family)
  have "c \<in> W \<Longrightarrow> \<exists>y. hillclimb_loop p peg c = Some (Inr y)" for c
  proof (induction "card {z \<in> W. p c < p z}" arbitrary: c rule: less_induct)
    case less
    from less.prems neighboring_family [of c "src_sentence x" "trg_sentence x" "alignment x ! 0" peg]
    obtain N where N: "neighboring c peg = Inr N" and NW: "set N \<subseteq> W"
      unfolding W_def by blast
    let ?c' = "climb_pass p N c"
    show ?case
    proof (cases "AlignmentInfo_eq ?c' c")
      case True
      from hillclimb_loop_stop [OF N True] show ?thesis by blast
    next
      case False
      then have "?c' \<noteq> c" by (auto simp: AlignmentInfo_eq_def)
      with climb_pass_result [of p N c] have c': "?c' \<in> set N" "p c < p ?c'" by simp_all
      with NW have c'W: "?c' \<in> W" by blast
      have "{z \<in> W. p ?c' < p z} \<subset> {z \<in> W. p c < p z}"
        using c' c'W by auto
      then have "card {z \<in> W. p ?c' < p z} < card {z \<in> W. p c < p z}"
        using fin by (intro psubset_card_mono) simp_all
      from less.hyps [OF this c'W] hillclimb_loop_continue [OF N False]
      show ?thesis by simp
    qed
  qed
  moreover have "x \<in> W" using assms by (simp add: W_def)
  ultimately show ?thesis by blast
qed

lemma hillclimb_returns_argument:
  "fertility_invariant x \<Longrightarrow> hillclimb p x peg = Some (Inr x)"
  using hillclimb_loop_returns [of x p peg] by (auto simp: hillclimb_def)

section \<open>The seed alignment\<close>

lemma seed_loop_counts:
  assumes "seed_loop trg src j js al fe self = (Inr (al', fe'), self')"
    and "distinct js" "distinct ds"
    and "\<And>jj. jj \<in> set js \<Longrightarrow> jj \<noteq> j \<Longrightarrow> jj \<notin> set ds"
    and "sum_list fe = int (length ds)"
    and "\<And>i. i < length fe \<Longrightarrow> fe ! i = int (length (filter (\<lambda>q. al ! q = int i) ds))"
  shows "\<exists>ds'. distinct ds' \<and> set ds' = set ds \<union> (set js - {j}) \<and>
      length al' = length al \<and> length fe' = length fe \<and>
      (\<forall>q. q \<notin> set js \<longrightarrow> al' ! q = al ! q) \<and>
      sum_list fe' = int (length ds') \<and>
      (\<forall>i < length fe'. fe' ! i = int (length (filter (\<lambda>q. al' ! q = int i) ds')))"
  using assms
proof (induction js arbitrary: ds al fe self)
  case Nil
  then show ?case by auto
next
  case (Cons jj js)
  show ?case
  proof (cases "jj = j")
    case True
    with Cons.prems(1) have loop: "seed_loop trg src j js al fe self = (Inr (al', fe'), self')"
      by simp
    from Cons.prems(2) have d: "distinct js" and nin: "jj \<notin> set js" by simp_all
    from Cons.IH [OF loop d Cons.prems(3) _ Cons.prems(5,6)] Cons.prems(4)
    obtain ds' where ds': "distinct ds'" "set ds' = set ds \<union> (set js - {j})"
      "length al' = length al" "length fe' = length fe"
      "\<forall>q. q \<notin> set js \<longrightarrow> al' ! q = al ! q"
      "sum_list fe' = int (length ds')"
      "\<forall>i < length fe'. fe' ! i = int (length (filter (\<lambda>q. al' ! q = int i) ds'))"
      by auto
    show ?thesis
      by (rule exI [of _ ds']) (use ds' True in auto)
  next
    case False
    obtain mp best self1 where scan:
      "model2_scan trg src jj [0..<length src] MIN_PROB 1 self = ((mp, best), self1)"
      by (metis surj_pair)
    from Cons.prems(1) False scan have jl: "jj < length al" and bl: "best < length fe"
      and loop: "seed_loop trg src j js (al[jj := int best]) (fe[best := fe ! best + 1]) self1
                  = (Inr (al', fe'), self')"
      by (auto split: if_splits)
    let ?al1 = "al[jj := int best]" and ?fe1 = "fe[best := fe ! best + 1]"
    from Cons.prems(2) have d: "distinct js" and nin: "jj \<notin> set js" by simp_all
    from Cons.prems(4) [of jj] False have nds: "jj \<notin> set ds" by simp
    have d1: "distinct (jj # ds)" using nds Cons.prems(3) by simp
    have fresh: "\<And>q. q \<in> set js \<Longrightarrow> q \<noteq> j \<Longrightarrow> q \<notin> set (jj # ds)"
      using Cons.prems(4) nin by auto
    have s1: "sum_list ?fe1 = int (length (jj # ds))"
      using bl Cons.prems(5) by (simp add: sum_list_update_int)
    have c1: "?fe1 ! i = int (length (filter (\<lambda>q. ?al1 ! q = int i) (jj # ds)))"
      if "i < length ?fe1" for i
    proof -
      have "?al1 ! jj = int best" using jl by simp
      moreover have "?fe1 ! i = fe ! i + (if best = i then 1 else 0)"
        using that bl by (simp add: nth_list_update)
      ultimately show ?thesis using Cons.prems(6) [of i] that
        by (simp add: filter_update_other [OF nds])
    qed
    from Cons.IH [OF loop d d1 fresh s1 c1]
    obtain ds' where ds': "distinct ds'" "set ds' = set (jj # ds) \<union> (set js - {j})"
      "length al' = length ?al1" "length fe' = length ?fe1"
      "\<forall>q. q \<notin> set js \<longrightarrow> al' ! q = ?al1 ! q"
      "sum_list fe' = int (length ds')"
      "\<forall>i < length fe'. fe' ! i = int (length (filter (\<lambda>q. al' ! q = int i) ds'))"
      by auto
    show ?thesis
      by (rule exI [of _ ds']) (use ds' False in auto)
  qed
qed

lemma length_filter_same_set:
  assumes "distinct xs" "distinct ys" "set xs = set ys"
  shows "length (filter P xs) = length (filter P ys)"
  using assms by (simp add: distinct_length_filter)

lemma seed_alignment_invariant:
  assumes seed: "seed_alignment trg src i j self = (Inr x, self')"
    and i: "i < length src" and j: "j \<in> set [1..<length trg + 1]"
  shows "fertility_invariant x \<and> src_sentence x = src \<and> trg_sentence x = trg \<and>
         alignment x ! 0 = 0"
proof -
  let ?m = "length trg" and ?n = "length src"
  let ?js = "[1..<?m + 1]"
  let ?al0 = "(replicate (?m + 1) (0::int))[j := int i]"
  let ?fe0 = "(replicate ?n (0::int))[i := 1]"
  from seed obtain al' fe' where
    loop: "seed_loop trg src j ?js ?al0 ?fe0 self = (Inr (al', fe'), self')"
    and x: "x = \<lparr>alignment = al', fertility_of_i = fe', src_sentence = src, trg_sentence = trg\<rparr>"
    by (auto simp: seed_alignment_def Let_def split: prod.splits sum.splits)
  have jpos: "0 < j" and jm: "j < ?m + 1" using j by (simp_all del: upt_Suc)
  have s0: "sum_list ?fe0 = int (length [j])"
    using i by (simp add: sum_list_update_int sum_list_replicate)
  have c0: "?fe0 ! i' = int (length (filter (\<lambda>q. ?al0 ! q = int i') [j]))"
    if "i' < length ?fe0" for i'
  proof -
    have "?al0 ! j = int i" by (rule nth_list_update_eq) (use jm in simp)
    moreover have "?fe0 ! i' = (if i' = i then 1 else 0)"
      using that i by (simp add: nth_list_update)
    ultimately show ?thesis by simp
  qed
  have fresh: "\<And>jj. jj \<in> set ?js \<Longrightarrow> jj \<noteq> j \<Longrightarrow> jj \<notin> set [j]" by simp
  from seed_loop_counts [OF loop distinct_target_positions _ fresh s0 c0]
  obtain ds' where ds': "distinct ds'" "set ds' = set [j] \<union> (set ?js - {j})"
    "length al' = length ?al0" "length fe' = length ?fe0"
    "\<forall>q. q \<notin> set ?js \<longrightarrow> al' ! q = ?al0 ! q"
    "sum_list fe' = int (length ds')"
    "\<forall>i < length fe'. fe' ! i = int (length (filter (\<lambda>q. al' ! q = int i) ds'))"
    by auto
  have "set ds' = insert j (set ?js - {j})" using ds'(2) by (simp del: upt_Suc)
  also have "\<dots> = set ?js" by (rule insert_Diff [OF j])
  finally have set_eq: "set ds' = set ?js" .
  have cnt: "length (filter P ds') = length (filter P ?js)" for P
    by (rule length_filter_same_set [OF ds'(1) distinct_target_positions set_eq])
  have "length ds' = length ?js"
    by (metis distinct_card ds'(1) distinct_target_positions set_eq)
  then have len: "length ds' = ?m" by (simp del: upt_Suc)
  have "0 \<notin> set ?js" by (simp del: upt_Suc)
  with ds'(5) have "al' ! 0 = ?al0 ! 0" by blast
  also have "\<dots> = replicate (?m + 1) 0 ! 0" using jpos by (simp only: nth_list_update_neq)
  also have "\<dots> = 0" by (rule nth_replicate) simp
  finally have zero: "al' ! 0 = 0" .
  have l1: "length al' = ?m + 1" using ds'(3) by (simp only: length_list_update length_replicate)
  have l2: "length fe' = ?n" using ds'(4) by (simp only: length_list_update length_replicate)
  have sm: "sum_list fe' = int ?m" using ds'(6) len by (simp only:)
  have ct: "fe' ! i' = int (aligned_count al' ?m (int i'))" if "i' < ?n" for i'
    using ds'(7) that l2 by (simp only: aligned_count_def cnt)
  have "fertility_invariant x"
    by (rule fertility_invariantI) (simp_all only: x AlignmentInfo.simps l1 l2 sm ct)
  then show ?thesis using zero by (simp add: x)
qed

end
